theory Spec2Isabelle
  imports Main "HOL-Library.Word"
begin

unbundle bit_operations_syntax

section \<open>Values, errors and Python built-ins\<close>

text \<open>
  The program is Python 2.  Its integers are unbounded and are modelled by \<open>int\<close>; its
  \<open>str\<close> values are byte strings and are modelled by lists of 8-bit words; the text
  produced by \<open>hex\<close> and by the \<open>hex\<close> codec is a \<open>string\<close>.  Every exception is
  a value of type \<open>error\<close> returned on the left of a sum.
\<close>

datatype error =
    IntegerTooLarge
  | InvalidSignature
  | RSAModulusTooShort
  | ValueError
  | TypeError
  | IndexError
  | ZeroDivisionError
  | AssertionError

type_synonym byte = "8 word"

definition hex_alphabet :: string where
  "hex_alphabet = ''0123456789abcdef''"

definition hex_char :: "nat \<Rightarrow> char" where
  "hex_char d = hex_alphabet ! d"

text \<open>The value of one hexadecimal digit, in either case, as the decoders read it.\<close>

definition hex_value :: "char \<Rightarrow> nat option" where
  "hex_value c =
     (if c \<in> set ''0123456789'' then Some (of_char c - 48)
      else if c \<in> set ''abcdef'' then Some (of_char c - 87)
      else if c \<in> set ''ABCDEF'' then Some (of_char c - 55)
      else None)"

text \<open>The digits \<open>hex\<close> prints for a magnitude: no leading zero, \<open>0\<close> for zero.\<close>

fun hex_digits :: "nat \<Rightarrow> string" where
  "hex_digits n =
     (if n < 16 then [hex_char n] else hex_digits (n div 16) @ [hex_char (n mod 16)])"

declare hex_digits.simps [simp del]

text \<open>
  Python 2 \<open>hex(x)\<close>: a sign, the prefix \<open>0x\<close>, the digits, and the suffix \<open>L\<close> when
  \<open>x\<close> has type \<open>long\<close>.  Whether a value is an \<open>int\<close> or a \<open>long\<close> depends on how it
  was computed, so the flag is an argument.
\<close>

definition py_hex :: "bool \<Rightarrow> int \<Rightarrow> string" where
  "py_hex is_long x =
     (if x < 0 then ''-'' else []) @ ''0x'' @ hex_digits (nat \<bar>x\<bar>)
       @ (if is_long then ''L'' else [])"

text \<open>
  \<open>s.decode('hex')\<close>: two digits make one byte; an odd number of characters or a
  character that is no hexadecimal digit raises \<open>TypeError\<close>.
\<close>

fun decode_hex :: "string \<Rightarrow> error + byte list" where
  "decode_hex [] = Inr []"
| "decode_hex [c] = Inl TypeError"
| "decode_hex (c1 # c2 # cs) =
     (case (hex_value c1, hex_value c2) of
        (Some hi, Some lo) \<Rightarrow>
          (case decode_hex cs of
             Inl err \<Rightarrow> Inl err
           | Inr bs \<Rightarrow> Inr (of_nat (16 * hi + lo) # bs))
      | _ \<Rightarrow> Inl TypeError)"

text \<open>\<open>s.encode('hex')\<close>: two lower-case digits for every byte.\<close>

definition encode_hex :: "byte list \<Rightarrow> string" where
  "encode_hex bs = concat (map (\<lambda>b. [hex_char (unat b div 16), hex_char (unat b mod 16)]) bs)"

text \<open>
  \<open>int(h, 16)\<close> on a string of hexadecimal digits; the empty string and any other
  character raise \<open>ValueError\<close>.  (The sign, prefix and blanks that \<open>int\<close> also accepts
  cannot occur in the output of the \<open>hex\<close> codec, the only argument the program passes.)
\<close>

fun int16_loop :: "int \<Rightarrow> string \<Rightarrow> error + int" where
  "int16_loop acc [] = Inr acc"
| "int16_loop acc (c # cs) =
     (case hex_value c of
        None \<Rightarrow> Inl ValueError
      | Some d \<Rightarrow> int16_loop (16 * acc + int d) cs)"

definition py_int16 :: "string \<Rightarrow> error + int" where
  "py_int16 h = (if h = [] then Inl ValueError else int16_loop 0 h)"

section \<open>primitives.py\<close>

subsection \<open>Sizes\<close>

text \<open>
  The loop of \<open>integer_bit_size\<close>.  On a negative argument \<open>n >>= 1\<close> settles at \<open>-1\<close>
  and the loop never ends, which is the value \<open>None\<close> here.
\<close>

partial_function (option) bit_size_loop :: "int \<Rightarrow> nat \<Rightarrow> nat option" where
  "bit_size_loop n s = (if n \<noteq> 0 then bit_size_loop (drop_bit 1 n) (s + 1) else Some s)"

declare bit_size_loop.simps [code]

definition integer_bit_size :: "int \<Rightarrow> nat option" where
  "integer_bit_size n = (if n = 0 then Some 1 else bit_size_loop n 0)"

definition integer_byte_size :: "int \<Rightarrow> nat option" where
  "integer_byte_size n =
     (case integer_bit_size n of
        None \<Rightarrow> None
      | Some b \<Rightarrow>
          (let quanta = b div 8; md = b mod 8
           in Some (if md \<noteq> 0 \<or> n = 0 then quanta + 1 else quanta)))"

subsection \<open>Integer to octet string and back\<close>

text \<open>
  \<open>i2osp\<close>.  The length is a natural number: every caller passes a byte length, and
  for a negative length \<open>256**x_len\<close> is a floating-point number.  A negative
  repeat count of \<open>'\x00' * int(...)\<close> gives the empty string.
\<close>

definition i2osp :: "bool \<Rightarrow> int \<Rightarrow> nat \<Rightarrow> error + byte list" where
  "i2osp is_long x x_len =
     (if x > 256 ^ x_len then Inl IntegerTooLarge
      else
        let h = drop 2 (py_hex is_long x) in
        if h = [] then Inl IndexError
        else
          let h = (if last h = CHR ''L'' then butlast h else h);
              h = (if int (length h) AND 1 = 1 then CHR ''0'' # h else h)
          in case decode_hex h of
               Inl err \<Rightarrow> Inl err
             | Inr xb \<Rightarrow> Inr (replicate (nat (int x_len - int (length xb))) 0 @ xb))"

definition os2ip :: "byte list \<Rightarrow> error + int" where
  "os2ip x = py_int16 (encode_hex x)"

subsection \<open>Arithmetic\<close>

text \<open>
  \<open>_pow(a, b, mod)\<close>: both branches compute the three-argument \<open>pow\<close>, which raises
  \<open>ValueError\<close> on a zero modulus and \<open>TypeError\<close> on a negative exponent.
\<close>

definition mod_pow :: "int \<Rightarrow> int \<Rightarrow> int \<Rightarrow> error + int" where
  "mod_pow a b md =
     (if md = 0 then Inl ValueError
      else if b < 0 then Inl TypeError
      else Inr (a ^ nat b mod md))"

text \<open>Python's \<open>//\<close> and \<open>%\<close> round towards minus infinity, as \<open>div\<close> and \<open>mod\<close> on \<open>int\<close> do, and raise on a zero divisor.\<close>

definition py_floordiv :: "int \<Rightarrow> int \<Rightarrow> error + int" where
  "py_floordiv a b = (if b = 0 then Inl ZeroDivisionError else Inr (a div b))"

definition py_mod :: "int \<Rightarrow> int \<Rightarrow> error + int" where
  "py_mod a b = (if b = 0 then Inl ZeroDivisionError else Inr (a mod b))"

text \<open>The loop of \<open>bezout\<close> on the six variables \<open>a, b, u, v, s, t\<close>.\<close>

function bezout_loop ::
  "int \<Rightarrow> int \<Rightarrow> int \<Rightarrow> int \<Rightarrow> int \<Rightarrow> int \<Rightarrow> error + (int \<times> int \<times> int)" where
  "bezout_loop a b u v s t =
     (if b > 0 then
        (case py_floordiv a b of
           Inl err \<Rightarrow> Inl err
         | Inr q \<Rightarrow>
             (case py_mod a b of
                Inl err \<Rightarrow> Inl err
              | Inr r \<Rightarrow> bezout_loop b r s t (u - q * s) (v - q * t)))
      else Inr (u, v, a))"
  by pat_completeness auto

termination
  by (relation "measure (\<lambda>(a, b, u, v, s, t). nat b)")
     (auto simp: py_mod_def split: if_splits)

declare bezout_loop.simps [simp del]

definition bezout :: "int \<Rightarrow> int \<Rightarrow> error + (int \<times> int \<times> int)" where
  "bezout a b = bezout_loop a b 1 0 0 1"

text \<open>\<open>fractions.gcd\<close> of Python 2: \<open>while b: a, b = b, a % b\<close>.\<close>

function py_gcd :: "int \<Rightarrow> int \<Rightarrow> int" where
  "py_gcd a b = (if b \<noteq> 0 then py_gcd b (a mod b) else a)"
  by pat_completeness auto

termination
  by (relation "measure (\<lambda>(a, b). nat \<bar>b\<bar>)") (auto simp: abs_mod_less)

declare py_gcd.simps [simp del]

subsection \<open>Comparison\<close>

definition constant_time_cmp :: "byte list \<Rightarrow> byte list \<Rightarrow> bool" where
  "constant_time_cmp a b = fold (\<lambda>(x, y) result. result \<and> x = y) (zip a b) True"

section \<open>Key objects\<close>

text \<open>
  Modelled from the spec: the module \<open>keys\<close> (the classes \<open>RsaPublicKey\<close> and
  \<open>MultiPrimeRsaPrivateKey\<close> with their attribute \<open>k\<close> and their methods \<open>rsavp1\<close> and
  \<open>rsasp1\<close>) is not among the source files.  The public key is \<open>{n, e, k}\<close> with \<open>k\<close> the
  byte length of \<open>n\<close>; the private key holds the primes, \<open>e\<close>, the group order \<open>\<lambda>\<close> (the
  product of the \<open>p - 1\<close>) and the blinding flag, and its modulus is the product of the
  primes.  A constructor does not return when the byte size of the modulus does not.
\<close>

record rsa_public_key =
  pub_n :: int
  pub_e :: int
  pub_k :: nat

record rsa_private_key =
  priv_primes :: "int list"
  priv_e :: int
  priv_n :: int
  priv_lbda :: int
  priv_k :: nat
  priv_blind :: bool

definition RsaPublicKey :: "int \<Rightarrow> int \<Rightarrow> rsa_public_key option" where
  "RsaPublicKey n e =
     (case integer_byte_size n of
        None \<Rightarrow> None
      | Some k \<Rightarrow> Some \<lparr>pub_n = n, pub_e = e, pub_k = k\<rparr>)"

definition MultiPrimeRsaPrivateKey :: "int list \<Rightarrow> int \<Rightarrow> bool \<Rightarrow> rsa_private_key option" where
  "MultiPrimeRsaPrivateKey primes e blind =
     (case integer_byte_size (prod_list primes) of
        None \<Rightarrow> None
      | Some k \<Rightarrow>
          Some \<lparr>priv_primes = primes, priv_e = e, priv_n = prod_list primes,
                priv_lbda = prod_list (map (\<lambda>p. p - 1) primes), priv_k = k,
                priv_blind = blind\<rparr>)"

text \<open>
  Modelled from the spec: \<open>RSAVP1(s)\<close> returns \<open>s^e mod n\<close> and fails with a value error
  when \<open>s\<close> is not in \<open>[0, n - 1]\<close>.
\<close>

definition rsavp1 :: "rsa_public_key \<Rightarrow> int \<Rightarrow> error + int" where
  "rsavp1 key s =
     (if 0 \<le> s \<and> s \<le> pub_n key - 1 then mod_pow s (pub_e key) (pub_n key)
      else Inl ValueError)"

text \<open>
  Modelled from the spec: the inverse of \<open>a\<close> modulo \<open>m\<close>, from the Bezout coefficient of
  the Euclidean engine.  The spec does not say what happens when there is no inverse;
  here that is a value error.
\<close>

definition mod_inverse :: "int \<Rightarrow> int \<Rightarrow> error + int" where
  "mod_inverse a m =
     (case bezout a m of
        Inl err \<Rightarrow> Inl err
      | Inr (u, v, g) \<Rightarrow> if g = 1 then Inr (u mod m) else Inl ValueError)"

text \<open>
  Modelled from the spec: \<open>RSASP1(m)\<close>.  The private exponent \<open>d\<close> is the inverse of \<open>e\<close>
  modulo \<open>\<lambda>\<close>.  With blinding, the factor \<open>r\<close> drawn for this call is an argument: the
  exponent is applied to \<open>m * r^e mod n\<close> and the result is multiplied by the inverse of
  \<open>r\<close> modulo \<open>n\<close>.  Without blinding the result is \<open>m^d mod n\<close>.
\<close>

definition rsasp1 :: "rsa_private_key \<Rightarrow> int \<Rightarrow> int \<Rightarrow> error + int" where
  "rsasp1 key r m =
     (case mod_inverse (priv_e key) (priv_lbda key) of
        Inl err \<Rightarrow> Inl err
      | Inr d \<Rightarrow>
          if priv_blind key then
            (case mod_inverse r (priv_n key) of
               Inl err \<Rightarrow> Inl err
             | Inr r_inv \<Rightarrow>
                 (case mod_pow r (priv_e key) (priv_n key) of
                    Inl err \<Rightarrow> Inl err
                  | Inr r_e \<Rightarrow>
                      (case mod_pow (m * r_e mod priv_n key) d (priv_n key) of
                         Inl err \<Rightarrow> Inl err
                       | Inr x \<Rightarrow> Inr (x * r_inv mod priv_n key))))
          else mod_pow m d (priv_n key))"

section \<open>Key generation\<close>

text \<open>
  The variables of the loop of \<open>generate_key_pair\<close>.
\<close>

record gen_state =
  gs_primes :: "int list"
  gs_lbda :: int
  gs_bits :: int
  gs_n :: int

text \<open>
  The prime provider \<open>get_prime\<close> is external and draws from a random source.  Its
  answers are an argument: one function from the requested bit length to the returned
  candidate for every call, in order (the iteration count and the primality algorithm
  only reach the provider).  The loop has no bound of its own; when the answers run
  out before enough primes are accepted, or a bit size does not return, the result is
  \<open>None\<close>.
\<close>

fun key_loop ::
  "int \<Rightarrow> int \<Rightarrow> bool \<Rightarrow> int option \<Rightarrow> (int \<Rightarrow> int) list \<Rightarrow> gen_state \<Rightarrow> gen_state option" where
  "key_loop size' number strict_size e [] st =
     (if int (length (gs_primes st)) < number then None else Some st)"
| "key_loop size' number strict_size e (get_prime # rnd) st =
     (if int (length (gs_primes st)) < number then
        (let final = (number - int (length (gs_primes st)) = 1) in
         case (if final
               then map_option (\<lambda>b. size' - int b + 1) (integer_bit_size (gs_n st))
               else Some (gs_bits st)) of
           None \<Rightarrow> None
         | Some bits \<Rightarrow>
             (let st = st\<lparr>gs_bits := bits\<rparr>;
                  prime = get_prime bits
              in if prime \<in> set (gs_primes st) then key_loop size' number strict_size e rnd st
                 else if (case e of None \<Rightarrow> False | Some ev \<Rightarrow> py_gcd ev (gs_lbda st) \<noteq> 1)
                 then key_loop size' number strict_size e rnd st
                 else
                   (case (if strict_size \<and> final
                          then map_option (\<lambda>b. int b \<noteq> size') (integer_bit_size (gs_n st * prime))
                          else Some False) of
                      None \<Rightarrow> None
                    | Some True \<Rightarrow> key_loop size' number strict_size e rnd st
                    | Some False \<Rightarrow>
                        key_loop size' number strict_size e rnd
                          (st\<lparr>gs_primes := gs_primes st @ [prime],
                              gs_n := gs_n st * prime,
                              gs_lbda := gs_lbda st * (prime - 1)\<rparr>))))
      else Some st)"

text \<open>The search for a public exponent when none is supplied.\<close>

function e_search :: "int \<Rightarrow> int \<Rightarrow> int" where
  "e_search e lbda =
     (if e < lbda then (if py_gcd e lbda = 1 then e else e_search (e + 2) lbda) else e)"
  by pat_completeness auto

termination
  by (relation "measure (\<lambda>(e, lbda). nat (lbda - e))") auto

declare e_search.simps [simp del]

definition generate_key_pair ::
  "int \<Rightarrow> int \<Rightarrow> (int \<Rightarrow> int) list \<Rightarrow> bool \<Rightarrow> int option
     \<Rightarrow> (error + rsa_public_key \<times> rsa_private_key) option" where
  "generate_key_pair size' number rnd strict_size e =
     (case py_floordiv size' number of
        Inl err \<Rightarrow> Some (Inl err)
      | Inr q \<Rightarrow>
          (case key_loop size' number strict_size e rnd
                  \<lparr>gs_primes = [], gs_lbda = 1, gs_bits = q + 1, gs_n = 1\<rparr> of
             None \<Rightarrow> None
           | Some st \<Rightarrow>
               (let e = (case e of None \<Rightarrow> e_search 0x10001 (gs_lbda st) | Some ev \<Rightarrow> ev)
                in if 3 \<le> e \<and> e \<le> gs_n st - 1 then
                     (case (RsaPublicKey (gs_n st) e,
                            MultiPrimeRsaPrivateKey (gs_primes st) e True) of
                        (Some public, Some private) \<Rightarrow> Some (Inr (public, private))
                      | _ \<Rightarrow> None)
                   else Some (Inl AssertionError))))"

section \<open>rsassa\_pkcs1\_v15.py\<close>

text \<open>
  Modelled from the spec: the module \<open>exceptions\<close> is not among the source files.  The
  handlers \<open>except ValueError\<close> of \<open>verify\<close> catch the value error of the key primitive
  and, as step 3 of the spec's \<open>verify\<close> says, the failed conversion \<open>IntegerTooLarge\<close>.
\<close>

definition is_value_error :: "error \<Rightarrow> bool" where
  "is_value_error err \<longleftrightarrow> err = ValueError \<or> err = IntegerTooLarge"

text \<open>
  The message encoder \<open>emsa_pkcs1_v15.encode\<close> is external; it is an argument of \<open>sign\<close>
  and \<open>verify\<close>, from the message and the length to the encoded message or an exception.
  The flag \<open>is_long\<close> says whether the key primitive returns a \<open>long\<close>.
\<close>

type_synonym encoder = "byte list \<Rightarrow> nat \<Rightarrow> error + byte list"

definition sign :: "bool \<Rightarrow> encoder \<Rightarrow> int \<Rightarrow> rsa_private_key \<Rightarrow> byte list \<Rightarrow> error + byte list" where
  "sign is_long encode r private_key message =
     (case encode message (priv_k private_key) of
        Inl err \<Rightarrow> Inl err
      | Inr em \<Rightarrow>
          (case os2ip em of
             Inl err \<Rightarrow> Inl err
           | Inr m \<Rightarrow>
               (case rsasp1 private_key r m of
                  Inl err \<Rightarrow> Inl err
                | Inr s \<Rightarrow> i2osp is_long s (priv_k private_key))))"

text \<open>
  \<open>verify\<close> returns, next to its result, the calls it made to the key primitive and to
  the encoder, in order.
\<close>

datatype call = Call_rsavp1 int | Call_encode "byte list" nat

definition verify ::
  "bool \<Rightarrow> encoder \<Rightarrow> rsa_public_key \<Rightarrow> byte list \<Rightarrow> byte list \<Rightarrow> call list \<times> (error + bool)" where
  "verify is_long encode public_key message signature =
     (if length signature \<noteq> pub_k public_key then ([], Inl InvalidSignature)
      else
        case os2ip signature of
          Inl err \<Rightarrow> ([], Inl err)
        | Inr s \<Rightarrow>
            (case rsavp1 public_key s of
               Inl err \<Rightarrow>
                 ([Call_rsavp1 s], Inl (if is_value_error err then InvalidSignature else err))
             | Inr m \<Rightarrow>
                 (case i2osp is_long m (pub_k public_key) of
                    Inl err \<Rightarrow>
                      ([Call_rsavp1 s], Inl (if is_value_error err then InvalidSignature else err))
                  | Inr em \<Rightarrow>
                      (case encode message (pub_k public_key) of
                         Inl err \<Rightarrow>
                           ([Call_rsavp1 s, Call_encode message (pub_k public_key)],
                            Inl (if is_value_error err then RSAModulusTooShort else err))
                       | Inr em_prime \<Rightarrow>
                           ([Call_rsavp1 s, Call_encode message (pub_k public_key)],
                            Inr (constant_time_cmp em em_prime))))))"

section \<open>Notions used to state the properties\<close>

text \<open>The integer a byte string denotes, most significant byte first.\<close>

fun be_value :: "byte list \<Rightarrow> int" where
  "be_value [] = 0"
| "be_value (b # bs) = uint b * 256 ^ length bs + be_value bs"

text \<open>The shortest big-endian byte string of a natural number (one zero byte for zero).\<close>

fun min_bytes :: "nat \<Rightarrow> byte list" where
  "min_bytes n = (if n < 256 then [of_nat n] else min_bytes (n div 256) @ [of_nat (n mod 256)])"

declare min_bytes.simps [simp del]

text \<open>The number of binary digits of a natural number (none for zero).\<close>

fun bit_count :: "nat \<Rightarrow> nat" where
  "bit_count n = (if n = 0 then 0 else Suc (bit_count (n div 2)))"

declare bit_count.simps [simp del]

text \<open>The padding step of \<open>i2osp\<close> on its own.\<close>

definition even_pad :: "string \<Rightarrow> string" where
  "even_pad h = (if int (length h) AND 1 = 1 then CHR ''0'' # h else h)"

text \<open>Primality of an integer, by trial division.\<close>

definition is_prime :: "int \<Rightarrow> bool" where
  "is_prime p \<longleftrightarrow> 2 \<le> p \<and> (\<forall>d \<in> {2..<p}. \<not> d dvd p)"

text \<open>The same notion on natural numbers, by all divisors; used in the proofs only.\<close>

definition prime_nat :: "nat \<Rightarrow> bool" where
  "prime_nat p \<longleftrightarrow> 2 \<le> p \<and> (\<forall>d. d dvd p \<longrightarrow> d = 1 \<or> d = p)"

text \<open>
  What the loop of \<open>generate_key_pair\<close> keeps: the primes are distinct, \<open>n\<close> is their
  product and \<open>lbda\<close> is the product of the \<open>p - 1\<close>.
\<close>

definition gen_inv :: "gen_state \<Rightarrow> bool" where
  "gen_inv st \<longleftrightarrow>
     distinct (gs_primes st) \<and> gs_n st = prod_list (gs_primes st)
       \<and> gs_lbda st = prod_list (map (\<lambda>p. p - 1) (gs_primes st))"


section \<open>The codec\<close>

subsection \<open>Hexadecimal digits and \<open>os2ip\<close>\<close>

lemma hex_value_all: "\<forall>d \<in> set [0..<16]. hex_value (hex_char d) = Some d"
  by code_simp

lemma hex_value_hex_char: "d < 16 \<Longrightarrow> hex_value (hex_char d) = Some d"
  using hex_value_all by simp

lemma hex_char_not_L_all: "\<forall>d \<in> set [0..<16]. hex_char d \<noteq> CHR ''L''"
  by code_simp

lemma hex_char_not_L: "d < 16 \<Longrightarrow> hex_char d \<noteq> CHR ''L''"
  using hex_char_not_L_all by simp

lemma hex_value_zero: "hex_value CHR ''0'' = Some 0"
  by code_simp

lemma byte_split: "16 * (unat (b::byte) div 16) + unat b mod 16 = unat b"
  by simp

lemma int16_loop_encode_hex:
  "int16_loop acc (encode_hex bs) = Inr (acc * 256 ^ length bs + be_value bs)"
proof (induction bs arbitrary: acc)
  case Nil
  show ?case by (simp add: encode_hex_def)
next
  case (Cons b bs)
  have "unat b < 256" using unsigned_less [of b, where 'a = nat] by simp
  then have lt: "unat b div 16 < 16" "unat b mod 16 < 16"
    by simp_all
  have enc: "encode_hex (b # bs) = hex_char (unat b div 16) # hex_char (unat b mod 16) # encode_hex bs"
    by (simp add: encode_hex_def)
  have "int (unat b div 16) * 16 + int (unat b mod 16) = uint b"
    by (metis byte_split mult.commute of_nat_add of_nat_mult of_nat_numeral uint_nat)
  then have "16 * (16 * acc + int (unat b div 16)) + int (unat b mod 16) = 256 * acc + uint b"
    by simp
  then have "(16 * (16 * acc + int (unat b div 16)) + int (unat b mod 16)) * 256 ^ length bs
        = (256 * acc + uint b) * 256 ^ length bs"
    by (simp only:)
  also have "\<dots> = acc * 256 ^ length (b # bs) + uint b * 256 ^ length bs"
    by (simp add: algebra_simps)
  finally have "(16 * (16 * acc + int (unat b div 16)) + int (unat b mod 16)) * 256 ^ length bs
        = acc * 256 ^ length (b # bs) + uint b * 256 ^ length bs" .
  then show ?case
    using Cons.IH [of "16 * (16 * acc + int (unat b div 16)) + int (unat b mod 16)"]
    by (simp add: enc hex_value_hex_char lt)
qed

lemma encode_hex_eq_Nil: "encode_hex bs = [] \<longleftrightarrow> bs = []"
  by (cases bs) (simp_all add: encode_hex_def)

lemma os2ip_value: "bs \<noteq> [] \<Longrightarrow> os2ip bs = Inr (be_value bs)"
  by (simp add: os2ip_def py_int16_def encode_hex_eq_Nil int16_loop_encode_hex)

lemma os2ip_Nil: "os2ip [] = Inl ValueError"
  by (simp add: os2ip_def py_int16_def encode_hex_def)

lemma be_value_bounds: "0 \<le> be_value bs \<and> be_value bs < 256 ^ length bs"
proof (induction bs)
  case Nil show ?case by simp
next
  case (Cons b bs)
  have b: "0 \<le> uint b" "uint b \<le> 255" using uint_lt2p [of b] by simp_all
  have le: "uint b * 256 ^ length bs \<le> 255 * 256 ^ length bs"
    using b by (simp add: mult_right_mono)
  have ih: "be_value bs < 256 ^ length bs" "0 \<le> be_value bs" using Cons by simp_all
  have nn: "0 \<le> uint b * 256 ^ length bs" using b by simp
  have "uint b * 256 ^ length bs + be_value bs < 256 * 256 ^ length bs"
    using le ih by linarith
  moreover have "0 \<le> uint b * 256 ^ length bs + be_value bs"
    using nn ih by linarith
  ultimately show ?case by simp
qed

lemma be_value_append: "be_value (xs @ ys) = be_value xs * 256 ^ length ys + be_value ys"
  by (induction xs) (simp_all add: algebra_simps power_add)

lemma be_value_replicate_zero: "be_value (replicate k 0 @ bs) = be_value bs"
  by (induction k) simp_all

lemma be_value_inj:
  "length xs = length ys \<Longrightarrow> be_value xs = be_value ys \<Longrightarrow> xs = ys"
proof (induction xs ys rule: list_induct2)
  case Nil show ?case by simp
next
  case (Cons x xs y ys)
  let ?B = "(256::int) ^ length xs"
  have bx: "0 \<le> be_value xs" "be_value xs < ?B" using be_value_bounds [of xs] by simp_all
  have by': "0 \<le> be_value ys" "be_value ys < ?B"
    using be_value_bounds [of ys] Cons.hyps by simp_all
  have eq: "uint x * ?B + be_value xs = uint y * ?B + be_value ys"
    using Cons.prems Cons.hyps by simp
  have "(uint x * ?B + be_value xs) div ?B = uint x" using bx by simp
  moreover have "(uint y * ?B + be_value ys) div ?B = uint y" using by' by simp
  ultimately have xy: "uint x = uint y" using eq by simp
  then have "be_value xs = be_value ys" using eq by simp
  with Cons.IH xy show ?case by (simp add: word_uint_eq_iff)
qed


section \<open>Comparison and the Euclidean algorithm\<close>

lemma fold_cmp:
  "fold (\<lambda>(x, y) result. result \<and> x = y) ps r \<longleftrightarrow> r \<and> (\<forall>(x, y) \<in> set ps. x = y)"
  by (induction ps arbitrary: r) auto

lemma constant_time_cmp_eq:
  "length a = length b \<Longrightarrow> constant_time_cmp a b \<longleftrightarrow> a = b"
  by (simp add: constant_time_cmp_def fold_cmp list_eq_iff_zip_eq)

lemma bezout_loop_invariant:
  "\<exists>u' v' g. bezout_loop a b u v s t = Inr (u', v', g)
      \<and> (0 \<le> a \<longrightarrow> 0 \<le> b \<longrightarrow> g = gcd a b)
      \<and> (\<forall>a0 b0. a0 * u + b0 * v = a \<longrightarrow> a0 * s + b0 * t = b \<longrightarrow> a0 * u' + b0 * v' = g)"
proof (induction a b u v s t rule: bezout_loop.induct)
  case (1 a b u v s t)
  show ?case
  proof (cases "b > 0")
    case False
    then show ?thesis by (auto simp: bezout_loop.simps [of a b])
  next
    case True
    let ?q = "a div b" and ?r = "a mod b"
    have fd: "py_floordiv a b = Inr ?q" and md: "py_mod a b = Inr ?r"
      using True by (simp_all add: py_floordiv_def py_mod_def)
    from "1.IH" [OF True fd md]
    obtain u' v' g where
      res: "bezout_loop b ?r s t (u - ?q * s) (v - ?q * t) = Inr (u', v', g)"
      and g: "0 \<le> b \<longrightarrow> 0 \<le> ?r \<longrightarrow> g = gcd b ?r"
      and lin: "\<forall>a0 b0. a0 * s + b0 * t = b \<longrightarrow> a0 * (u - ?q * s) + b0 * (v - ?q * t) = ?r
                 \<longrightarrow> a0 * u' + b0 * v' = g"
      by blast
    have unfold: "bezout_loop a b u v s t = Inr (u', v', g)"
      using True fd md res by (simp add: bezout_loop.simps [of a b])
    have "g = gcd a b" using g True by (simp add: gcd.commute [of a b] gcd_red_int [symmetric])
    moreover have "a0 * u' + b0 * v' = g"
      if h1: "a0 * u + b0 * v = a" and h2: "a0 * s + b0 * t = b" for a0 b0
    proof -
      have "a0 * (u - ?q * s) + b0 * (v - ?q * t) = (a0 * u + b0 * v) - ?q * (a0 * s + b0 * t)"
        by (simp add: algebra_simps)
      also have "\<dots> = a - ?q * b" by (simp only: h1 h2)
      also have "\<dots> = ?r" by (simp add: minus_div_mult_eq_mod [symmetric] mult.commute)
      finally show ?thesis using lin h2 by blast
    qed
    ultimately show ?thesis using unfold by blast
  qed
qed

lemma bezout_correct:
  "\<exists>u v g. bezout a b = Inr (u, v, g) \<and> a * u + b * v = g \<and> (0 \<le> a \<longrightarrow> 0 \<le> b \<longrightarrow> g = gcd a b)"
proof -
  obtain u' v' g where res: "bezout_loop a b 1 0 0 1 = Inr (u', v', g)"
    and g: "0 \<le> a \<longrightarrow> 0 \<le> b \<longrightarrow> g = gcd a b"
    and lin: "\<forall>a0 b0. a0 * 1 + b0 * 0 = a \<longrightarrow> a0 * 0 + b0 * 1 = b \<longrightarrow> a0 * u' + b0 * v' = g"
    using bezout_loop_invariant [of a b 1 0 0 1] by blast
  have "a * u' + b * v' = g" using lin by simp
  then show ?thesis using res g by (simp add: bezout_def)
qed

lemma bezout_zero: "bezout a 0 = Inr (1, 0, a)"
  by (simp add: bezout_def bezout_loop.simps [of a 0])



section \<open>The codec, continued\<close>

subsection \<open>What \<open>i2osp\<close> returns on a non-negative integer\<close>

lemma even_pad_alt: "even_pad h = (if odd (length h) then CHR ''0'' # h else h)"
  by (simp add: even_pad_def and_one_eq mod_2_eq_odd)

lemma hex_digits_nonempty: "hex_digits n \<noteq> []"
  by (subst hex_digits.simps) simp

lemma last_hex_digits: "last (hex_digits n) = hex_char (n mod 16)"
  by (subst hex_digits.simps) simp

lemma last_hex_digits_not_L: "last (hex_digits n) \<noteq> CHR ''L''"
  by (simp add: last_hex_digits hex_char_not_L)

lemma decode_hex_append:
  "even (length ys) \<Longrightarrow> decode_hex ys = Inr bs \<Longrightarrow> decode_hex zs = Inr cs
     \<Longrightarrow> decode_hex (ys @ zs) = Inr (bs @ cs)"
proof (induction ys arbitrary: bs rule: decode_hex.induct)
  case 1 then show ?case by simp
next
  case (2 c) then show ?case by simp
next
  case (3 c1 c2 cs')
  then show ?case
    by (auto split: option.splits sum.splits)
qed

lemma decode_hex_pair:
  "hi < 16 \<Longrightarrow> lo < 16 \<Longrightarrow> decode_hex [hex_char hi, hex_char lo] = Inr [of_nat (16 * hi + lo)]"
  by (simp add: hex_value_hex_char)

lemma hex_digits_256:
  "256 \<le> n \<Longrightarrow> hex_digits n = hex_digits (n div 256) @ [hex_char (n div 16 mod 16), hex_char (n mod 16)]"
proof -
  assume n: "256 \<le> n"
  then have "16 \<le> n div 16" by simp
  then have "hex_digits (n div 16) = hex_digits (n div 16 div 16) @ [hex_char (n div 16 mod 16)]"
    by (subst hex_digits.simps) simp
  moreover have "hex_digits n = hex_digits (n div 16) @ [hex_char (n mod 16)]"
    using n by (subst hex_digits.simps) simp
  moreover have "n div 16 div 16 = n div 256" by (simp add: div_mult2_eq [symmetric])
  ultimately show ?thesis by simp
qed

lemma decode_even_pad_hex_digits:
  "decode_hex (even_pad (hex_digits n)) = Inr (min_bytes n) \<and> even (length (even_pad (hex_digits n)))"
proof (induction n rule: min_bytes.induct)
  case (1 n)
  show ?case
  proof (cases "n < 256")
    case True
    show ?thesis
    proof (cases "n < 16")
      case True
      then have "hex_digits n = [hex_char n]" by (subst hex_digits.simps) simp
      then show ?thesis using True
        by (simp add: even_pad_alt hex_value_zero hex_value_hex_char min_bytes.simps [of n])
    next
      case False
      then have "n div 16 < 16" using \<open>n < 256\<close> by simp
      then have "hex_digits (n div 16) = [hex_char (n div 16)]" by (subst hex_digits.simps) simp
      then have "hex_digits n = [hex_char (n div 16), hex_char (n mod 16)]"
        using False by (subst hex_digits.simps) simp
      then show ?thesis using \<open>n < 256\<close> \<open>n div 16 < 16\<close>
        by (simp add: even_pad_alt hex_value_hex_char min_bytes.simps [of n])
    qed
  next
    case False
    then have n: "256 \<le> n" by simp
    let ?xs = "hex_digits (n div 256)"
    let ?tl = "[hex_char (n div 16 mod 16), hex_char (n mod 16)]"
    have hd: "hex_digits n = ?xs @ ?tl" using n by (rule hex_digits_256)
    have pad: "even_pad (hex_digits n) = even_pad ?xs @ ?tl"
      by (simp add: hd even_pad_alt)
    from "1.IH" [OF False] have ih: "decode_hex (even_pad ?xs) = Inr (min_bytes (n div 256))"
      and ev: "even (length (even_pad ?xs))" by simp_all
    have tl: "decode_hex ?tl = Inr [of_nat (16 * (n div 16 mod 16) + n mod 16)]"
      by (rule decode_hex_pair) simp_all
    have "16 * (n div 16 mod 16) + n mod 16 = n mod 256"
      using mod_mult2_eq [of n 16 16] by simp
    then have tl': "decode_hex ?tl = Inr [of_nat (n mod 256)]" using tl by simp
    have "decode_hex (even_pad ?xs @ ?tl) = Inr (min_bytes (n div 256) @ [of_nat (n mod 256)])"
      using ev ih tl' by (rule decode_hex_append)
    then show ?thesis using False ev by (simp add: pad min_bytes.simps [of n])
  qed
qed

lemma i2osp_nonneg:
  assumes "0 \<le> x" "x \<le> 256 ^ L"
  shows "i2osp is_long x L
           = Inr (replicate (L - length (min_bytes (nat x))) 0 @ min_bytes (nat x))"
proof -
  have h: "drop 2 (py_hex is_long x) = hex_digits (nat x) @ (if is_long then ''L'' else [])"
    using assms by (simp add: py_hex_def)
  have strip: "(if last (drop 2 (py_hex is_long x)) = CHR ''L''
                then butlast (drop 2 (py_hex is_long x)) else drop 2 (py_hex is_long x))
               = hex_digits (nat x)"
    unfolding h
    by (cases is_long) (simp_all add: last_hex_digits_not_L hex_digits_nonempty butlast_append)
  have ne: "drop 2 (py_hex is_long x) \<noteq> []" by (simp add: h hex_digits_nonempty)
  have dec: "decode_hex (even_pad (hex_digits (nat x))) = Inr (min_bytes (nat x))"
    using decode_even_pad_hex_digits by simp
  have "\<not> x > 256 ^ L" using assms by simp
  then show ?thesis
    unfolding i2osp_def Let_def
    using ne dec by (simp only: strip if_False even_pad_def [symmetric] sum.case)
       (simp add: nat_diff_distrib')
qed

section \<open>Properties of the comparator, of \<open>bezout\<close> and of \<open>os2ip\<close>\<close>

text \<open>
  C9. For two byte strings of the same length, the empty ones included,
  \<open>constant_time_cmp\<close> returns true exactly when the two strings are equal.
\<close>

theorem constant_time_cmp_iff_equal:
  "length a = length b \<Longrightarrow> constant_time_cmp a b \<longleftrightarrow> a = b"
  by (simp add: constant_time_cmp_def fold_cmp list_eq_iff_zip_eq)

theorem constant_time_cmp_iff_equal_witness:
  "length [1, 2 :: byte] = length [1, 3 :: byte]
     \<and> (constant_time_cmp [1, 2] [1, 3] \<longleftrightarrow> [1, 2 :: byte] = [1, 3])
     \<and> \<not> constant_time_cmp [1, 2] [1, 3]"
  using constant_time_cmp_iff_equal [of "[1, 2]" "[1, 3]"] by simp

text \<open>
  C8. For non-negative \<open>a\<close> and \<open>b\<close>, \<open>bezout\<close> returns a triple \<open>(u, v, g)\<close> with
  \<open>a * u + b * v = g\<close> and \<open>g = gcd a b\<close>.  It returns a triple on every input, so no
  division by zero is ever raised, and for \<open>b = 0\<close> the triple is \<open>(1, 0, a)\<close>.
\<close>

theorem bezout_spec:
  "0 \<le> a \<Longrightarrow> 0 \<le> b \<Longrightarrow>
     \<exists>u v g. bezout a b = Inr (u, v, g) \<and> a * u + b * v = g \<and> g = gcd a b
       \<and> bezout a 0 = Inr (1, 0, a)"
  using bezout_correct [of a b] bezout_zero [of a] by auto

theorem bezout_spec_witness:
  "(0::int) \<le> 12 \<and> (0::int) \<le> 18 \<and>
     (\<exists>u v g. bezout 12 18 = Inr (u, v, g) \<and> 12 * u + 18 * v = g \<and> g = gcd 12 18
        \<and> bezout 12 0 = Inr (1, 0, 12))"
  using bezout_spec [of 12 18] by simp

text \<open>
  C5, counterexample. On the empty byte string \<open>os2ip\<close> does not return 0: the hex text
  is empty and \<open>int\<close> raises \<open>ValueError\<close>.
\<close>

theorem os2ip_empty_raises: "os2ip [] \<noteq> Inr 0"
  by (simp add: os2ip_Nil)

text \<open>
  C5, as the code has it. On the empty byte string \<open>os2ip\<close> raises \<open>ValueError\<close>; on
  every other byte string it returns the non-negative integer whose big-endian digits
  in base 256 are the bytes.
\<close>

theorem os2ip_big_endian:
  "os2ip [] = Inl ValueError
     \<and> (bs \<noteq> [] \<longrightarrow> os2ip bs = Inr (be_value bs) \<and> 0 \<le> be_value bs)"
  using os2ip_Nil os2ip_value [of bs] be_value_bounds [of bs] by simp

theorem os2ip_big_endian_witness:
  "os2ip [1, 2] = Inr 258 \<and> be_value [1, 2] = 258"
  using os2ip_big_endian [of "[1, 2]"] by simp

text \<open>
  C3. At the boundary \<open>x = 256 ^ L\<close> the guard \<open>x > 256**x_len\<close> lets the integer through
  and \<open>i2osp\<close> returns \<open>L + 1\<close> bytes.
\<close>

theorem i2osp_boundary_accepted: "i2osp is_long 256 1 = Inr [1, 0]"
  by (cases is_long) (simp_all, code_simp+)

section \<open>Round trips of the codec\<close>

lemma length_min_bytes_pos: "0 < length (min_bytes n)"
  by (subst min_bytes.simps) simp

lemma be_value_min_bytes: "be_value (min_bytes n) = int n"
proof (induction n rule: min_bytes.induct)
  case (1 n)
  show ?case
  proof (cases "n < 256")
    case True
    then show ?thesis
      by (simp add: min_bytes.simps [of n] uint_nat unat_of_nat)
  next
    case False
    have "n mod 256 < 256" by simp
    then have "uint (word_of_nat (n mod 256) :: byte) = int (n mod 256)"
      by (simp add: uint_nat unat_of_nat del: of_nat_mod)
    moreover have "int (n div 256) * 256 + int (n mod 256) = int n"
      by (metis div_mult_mod_eq of_nat_add of_nat_mult of_nat_numeral)
    ultimately show ?thesis
      using False "1.IH" by (simp add: min_bytes.simps [of n] be_value_append del: of_nat_mod of_nat_div)
  qed
qed

lemma min_bytes_upper: "n < 256 ^ length (min_bytes n)"
proof (induction n rule: min_bytes.induct)
  case (1 n)
  show ?case
  proof (cases "n < 256")
    case True
    then show ?thesis by (simp add: min_bytes.simps [of n])
  next
    case False
    then have "n div 256 < 256 ^ length (min_bytes (n div 256))" using "1.IH" by simp
    then have "n < 256 * 256 ^ length (min_bytes (n div 256))"
      by (simp add: div_less_iff_less_mult mult.commute)
    then show ?thesis using False by (simp add: min_bytes.simps [of n])
  qed
qed

lemma min_bytes_length_le: "n < 256 ^ L \<Longrightarrow> 1 \<le> L \<Longrightarrow> length (min_bytes n) \<le> L"
proof (induction n arbitrary: L rule: min_bytes.induct)
  case (1 n)
  show ?case
  proof (cases "n < 256")
    case True
    then show ?thesis using "1.prems" by (simp add: min_bytes.simps [of n])
  next
    case False
    obtain K where L: "L = Suc K" using "1.prems" by (cases L) simp_all
    have "K \<noteq> 0" using False "1.prems" L by (cases K) simp_all
    then have K: "1 \<le> K" by simp
    have "n < 256 * 256 ^ K" using "1.prems" L by simp
    then have "n div 256 < 256 ^ K"
      by (simp add: div_less_iff_less_mult mult.commute)
    then have "length (min_bytes (n div 256)) \<le> K" using "1.IH" [OF False _ K] by simp
    then show ?thesis using False L by (simp add: min_bytes.simps [of n])
  qed
qed

lemma bit_size_loop_nat: "bit_size_loop (int n) s = Some (s + bit_count n)"
proof (induction n arbitrary: s rule: bit_count.induct)
  case (1 n)
  show ?case
  proof (cases "n = 0")
    case True
    then show ?thesis by (simp add: bit_size_loop.simps [of 0] bit_count.simps [of 0])
  next
    case False
    have "drop_bit 1 (int n) = int (n div 2)" by (simp add: drop_bit_eq_div)
    then show ?thesis
      using False "1.IH" [OF False, of "s + 1"]
      by (simp add: bit_size_loop.simps [of "int n"] bit_count.simps [of n])
  qed
qed

lemma bit_count_pos: "0 < n \<Longrightarrow> 0 < bit_count n"
  by (subst bit_count.simps) simp

lemma bit_count_le: "n < 2 ^ k \<Longrightarrow> bit_count n \<le> k"
proof (induction k arbitrary: n)
  case 0
  then show ?case by (simp add: bit_count.simps [of 0])
next
  case (Suc k)
  have "n div 2 < 2 ^ k" using Suc.prems by simp
  then have "bit_count (n div 2) \<le> k" by (rule Suc.IH)
  then show ?case by (simp add: bit_count.simps [of n])
qed

lemma bit_count_shift: "2 ^ k \<le> n \<Longrightarrow> bit_count n = k + bit_count (n div 2 ^ k)"
proof (induction k arbitrary: n)
  case 0
  show ?case by simp
next
  case (Suc k)
  have n0: "n \<noteq> 0" using Suc.prems by (cases "n = 0") simp_all
  have "2 ^ k \<le> n div 2" using Suc.prems by simp
  then have "bit_count (n div 2) = k + bit_count (n div 2 div 2 ^ k)" by (rule Suc.IH)
  moreover have "n div 2 div 2 ^ k = n div 2 ^ Suc k" by (simp add: div_mult2_eq)
  ultimately show ?case using n0 by (simp add: bit_count.simps [of n])
qed

lemma length_min_bytes_bits:
  "0 < n \<Longrightarrow> length (min_bytes n) = (bit_count n + 7) div 8"
proof (induction n rule: min_bytes.induct)
  case (1 n)
  show ?case
  proof (cases "n < 256")
    case True
    then have "n < 2 ^ 8" by simp
    then have "bit_count n \<le> 8" by (rule bit_count_le)
    moreover have "0 < bit_count n" using "1.prems" by (rule bit_count_pos)
    ultimately have "(bit_count n + 7) div 8 = 1" by simp
    then show ?thesis using True by (simp add: min_bytes.simps [of n])
  next
    case False
    then have "2 ^ 8 \<le> n" by simp
    then have "bit_count n = 8 + bit_count (n div 2 ^ 8)" by (rule bit_count_shift)
    then have bc: "bit_count n = 8 + bit_count (n div 256)" by simp
    have "0 < n div 256" using False by (simp add: div_greater_zero_iff)
    then have "length (min_bytes (n div 256)) = (bit_count (n div 256) + 7) div 8"
      using "1.IH" [OF False] by simp
    then show ?thesis using False bc by (simp add: min_bytes.simps [of n])
  qed
qed

lemma integer_byte_size_nat:
  "integer_byte_size (int n) = Some (length (min_bytes n))"
proof (cases "n = 0")
  case True
  then show ?thesis
    by (simp add: integer_byte_size_def integer_bit_size_def min_bytes.simps [of 0])
next
  case False
  then have pos: "0 < n" by simp
  have bs: "integer_bit_size (int n) = Some (bit_count n)"
    using False by (simp add: integer_bit_size_def bit_size_loop_nat)
  have "(if bit_count n mod 8 \<noteq> 0 then bit_count n div 8 + 1 else bit_count n div 8)
          = (bit_count n + 7) div 8"
    by presburger
  then show ?thesis
    using False by (simp add: integer_byte_size_def bs Let_def length_min_bytes_bits [OF pos])
qed

lemma integer_byte_size_nonneg:
  "0 \<le> x \<Longrightarrow> integer_byte_size x = Some (length (min_bytes (nat x)))"
  using integer_byte_size_nat [of "nat x"] by simp

lemma i2osp_fits:
  assumes x: "0 \<le> x" and len: "length (min_bytes (nat x)) \<le> L"
  shows "i2osp is_long x L = Inr (replicate (L - length (min_bytes (nat x))) 0 @ min_bytes (nat x))"
proof -
  have "nat x < 256 ^ length (min_bytes (nat x))" by (rule min_bytes_upper)
  also have "\<dots> \<le> 256 ^ L" using len by (simp add: power_increasing)
  finally have "nat x < 256 ^ L" .
  then have "int (nat x) < int (256 ^ L)" by (simp only: of_nat_less_iff)
  then have "x \<le> 256 ^ L" using x by simp
  with x show ?thesis by (rule i2osp_nonneg)
qed

text \<open>
  C4. For \<open>x \<ge> 0\<close> the byte size of \<open>x\<close> is defined, and for every length \<open>L\<close> that is
  at least that size \<open>i2osp\<close> returns a string of exactly \<open>L\<close> bytes that \<open>os2ip\<close>
  maps back to \<open>x\<close>: zero bytes on the left, then the shortest big-endian byte string
  of \<open>x\<close> (one zero byte for \<open>x = 0\<close>).
\<close>

theorem i2osp_os2ip_roundtrip:
  "0 \<le> x \<Longrightarrow>
     \<exists>b. integer_byte_size x = Some b \<and>
       (\<forall>L \<ge> b. \<exists>bs. i2osp is_long x L = Inr bs \<and> length bs = L \<and> os2ip bs = Inr x
                 \<and> bs = replicate (L - b) 0 @ min_bytes (nat x))"
proof -
  assume x: "0 \<le> x"
  let ?mb = "min_bytes (nat x)"
  have size: "integer_byte_size x = Some (length ?mb)"
    using x by (rule integer_byte_size_nonneg)
  have "\<exists>bs. i2osp is_long x L = Inr bs \<and> length bs = L \<and> os2ip bs = Inr x
                 \<and> bs = replicate (L - length ?mb) 0 @ ?mb"
    if L: "length ?mb \<le> L" for L
  proof -
    let ?bs = "replicate (L - length ?mb) 0 @ ?mb"
    have res: "i2osp is_long x L = Inr ?bs" using x L by (rule i2osp_fits)
    have len: "length ?bs = L" using L by simp
    have ne: "?bs \<noteq> []" using length_min_bytes_pos [of "nat x"] by simp
    have "be_value ?bs = x"
      using x by (simp add: be_value_replicate_zero be_value_min_bytes)
    then have "os2ip ?bs = Inr x" using os2ip_value [OF ne] by simp
    with res len show ?thesis by blast
  qed
  with size show ?thesis by blast
qed

theorem i2osp_os2ip_roundtrip_witness:
  "\<exists>b. integer_byte_size 258 = Some b \<and> b \<le> 4 \<and>
     (\<exists>bs. i2osp False 258 4 = Inr bs \<and> length bs = 4 \<and> os2ip bs = Inr 258)"
proof -
  have size: "integer_byte_size 258 = Some 2" by code_simp
  obtain b where b: "integer_byte_size 258 = Some b"
    and every: "\<forall>L \<ge> b. \<exists>bs. i2osp False 258 L = Inr bs \<and> length bs = L \<and> os2ip bs = Inr 258
                 \<and> bs = replicate (L - b) 0 @ min_bytes (nat 258)"
    using i2osp_os2ip_roundtrip [of 258 False] by auto
  have le: "b \<le> 4" using b size by simp
  then have "\<exists>bs. i2osp False 258 4 = Inr bs \<and> length bs = 4 \<and> os2ip bs = Inr 258"
    using every by blast
  with b le show ?thesis by blast
qed

lemma i2osp_be_value:
  "s \<noteq> [] \<Longrightarrow> i2osp is_long (be_value s) (length s) = Inr s"
proof -
  assume ne: "s \<noteq> []"
  let ?v = "be_value s"
  let ?mb = "min_bytes (nat ?v)"
  let ?bs = "replicate (length s - length ?mb) 0 @ ?mb"
  have v: "0 \<le> ?v" "?v < 256 ^ length s" using be_value_bounds [of s] by simp_all
  have "int (nat ?v) < int (256 ^ length s)" using v by simp
  then have "nat ?v < 256 ^ length s" by (simp only: of_nat_less_iff)
  moreover have "1 \<le> length s" using ne by (cases s) simp_all
  ultimately have len: "length ?mb \<le> length s" by (rule min_bytes_length_le)
  have enc: "i2osp is_long ?v (length s) = Inr ?bs" using v(1) len by (rule i2osp_fits)
  have "length ?bs = length s" using len by simp
  moreover have "be_value ?bs = be_value s"
    using v(1) by (simp add: be_value_replicate_zero be_value_min_bytes)
  ultimately have "?bs = s" by (rule be_value_inj)
  with enc show ?thesis by simp
qed

lemma i2osp_below:
  assumes x: "0 \<le> x" "x < 256 ^ L" and L: "1 \<le> L"
  shows "\<exists>bs. i2osp is_long x L = Inr bs \<and> length bs = L \<and> be_value bs = x"
proof -
  let ?mb = "min_bytes (nat x)"
  have "int (nat x) < int (256 ^ L)" using x by simp
  then have "nat x < 256 ^ L" by (simp only: of_nat_less_iff)
  then have len: "length ?mb \<le> L" using L by (rule min_bytes_length_le)
  have "i2osp is_long x L = Inr (replicate (L - length ?mb) 0 @ ?mb)"
    using x(1) len by (rule i2osp_fits)
  moreover have "length (replicate (L - length ?mb) 0 @ ?mb) = L" using len by simp
  moreover have "be_value (replicate (L - length ?mb) 0 @ ?mb) = x"
    using x(1) by (simp add: be_value_replicate_zero be_value_min_bytes)
  ultimately show ?thesis by blast
qed

text \<open>
  C10. For every non-empty byte string \<open>s\<close>, decoding it and encoding the integer
  again at the length of \<open>s\<close> gives \<open>s\<close> back, leading zero bytes included.
\<close>

theorem os2ip_i2osp_roundtrip:
  "s \<noteq> [] \<Longrightarrow> \<exists>v. os2ip s = Inr v \<and> i2osp is_long v (length s) = Inr s"
  using os2ip_value [of s] i2osp_be_value [of s is_long] by simp

theorem os2ip_i2osp_roundtrip_witness:
  "\<exists>v. os2ip [0, 0, 7] = Inr v \<and> i2osp True v (length [0, 0, 7 :: byte]) = Inr [0, 0, 7]"
  using os2ip_i2osp_roundtrip [of "[0, 0, 7]" True] by simp

section \<open>Key generation and \<open>verify\<close>\<close>

text \<open>
  C2. With the fixed exponent \<open>e = 3\<close>, a modulus of 8 bits and two primes, the provider
  answering 17 and then 13, \<open>generate_key_pair\<close> returns the key with primes
  \<open>[17, 13]\<close>, whose \<open>\<lambda> = 16 * 12 = 192\<close> is a multiple of \<open>e\<close>: the rejection step
  tests \<open>e\<close> against the \<open>\<lambda>\<close> of the primes already collected, without the candidate.
\<close>

theorem generate_key_pair_not_coprime:
  "generate_key_pair 8 2
     [\<lambda>bits. if bits = 5 then 17 else 0, \<lambda>bits. if bits = 4 then 13 else 0] True (Some 3)
   = Some (Inr (\<lparr>pub_n = 221, pub_e = 3, pub_k = 1\<rparr>,
                \<lparr>priv_primes = [17, 13], priv_e = 3, priv_n = 221, priv_lbda = 192,
                 priv_k = 1, priv_blind = True\<rparr>))
   \<and> gcd (3 :: int) 192 = 3"
  by code_simp

text \<open>
  C6. When the signature does not have the key's \<open>k\<close> bytes, \<open>verify\<close> raises
  \<open>InvalidSignature\<close> and has called neither the key primitive nor the encoder.
\<close>

theorem verify_wrong_length:
  "length signature \<noteq> pub_k public_key \<Longrightarrow>
     verify is_long encode public_key message signature = ([], Inl InvalidSignature)"
  by (simp add: verify_def)

theorem verify_wrong_length_witness:
  "length [1 :: byte] \<noteq> pub_k \<lparr>pub_n = 3233, pub_e = 17, pub_k = 2\<rparr> \<and>
   verify True (\<lambda>m k. Inr [0, 1]) \<lparr>pub_n = 3233, pub_e = 17, pub_k = 2\<rparr> [104, 105] [1]
     = ([], Inl InvalidSignature)"
  using verify_wrong_length [of "[1]" "\<lparr>pub_n = 3233, pub_e = 17, pub_k = 2\<rparr>" True
      "\<lambda>m k. Inr [0, 1]" "[104, 105]"]
  by simp

text \<open>
  C7. When the signature has \<open>k\<close> bytes, the key primitive accepts its integer and the
  result converts to \<open>k\<close> bytes, and the encoder then fails on the message and \<open>k\<close> (with
  an exception the handler \<open>except ValueError\<close> catches, or with \<open>RSAModulusTooShort\<close>
  itself), \<open>verify\<close> raises \<open>RSAModulusTooShort\<close>, not \<open>InvalidSignature\<close>.
\<close>

theorem verify_encoder_failure:
  assumes "length signature = pub_k public_key"
    and "os2ip signature = Inr s"
    and "rsavp1 public_key s = Inr m"
    and "i2osp is_long m (pub_k public_key) = Inr em"
    and "encode message (pub_k public_key) = Inl err"
    and "is_value_error err \<or> err = RSAModulusTooShort"
  shows "snd (verify is_long encode public_key message signature) = Inl RSAModulusTooShort
         \<and> snd (verify is_long encode public_key message signature) \<noteq> Inl InvalidSignature"
  using assms by (auto simp: verify_def)

theorem verify_encoder_failure_witness:
  "snd (verify False (\<lambda>m k. Inl ValueError) \<lparr>pub_n = 3233, pub_e = 17, pub_k = 2\<rparr>
          [104, 105] [0, 2]) = Inl RSAModulusTooShort"
proof -
  let ?key = "\<lparr>pub_n = 3233, pub_e = 17, pub_k = 2\<rparr>"
  have 1: "length [0, 2 :: byte] = pub_k ?key" by simp
  have 2: "os2ip [0, 2] = Inr 2" by code_simp
  have 3: "rsavp1 ?key 2 = Inr 1752" by code_simp
  have 4: "i2osp False 1752 (pub_k ?key) = Inr [6, 216]" by code_simp
  have 5: "(\<lambda>m k. Inl ValueError :: error + byte list) [104, 105] (pub_k ?key) = Inl ValueError" by simp
  have 6: "is_value_error ValueError \<or> ValueError = RSAModulusTooShort"
    by (simp add: is_value_error_def)
  show ?thesis using verify_encoder_failure [OF 1 2 3 4 5 6] by simp
qed

section \<open>Signing and verifying\<close>

subsection \<open>Fermat's little theorem\<close>

lemma prime_nat_coprime: "prime_nat p \<Longrightarrow> \<not> p dvd a \<Longrightarrow> coprime p a"
proof -
  assume p: "prime_nat p" and nd: "\<not> p dvd a"
  have "gcd p a dvd p" by simp
  then have "gcd p a = 1 \<or> gcd p a = p" using p by (simp add: prime_nat_def)
  moreover have "gcd p a \<noteq> p" using nd by (metis gcd_dvd2)
  ultimately show ?thesis by (simp add: coprime_iff_gcd_eq_1)
qed

lemma prime_nat_dvd_mult:
  "prime_nat p \<Longrightarrow> p dvd a * b \<Longrightarrow> p dvd a \<or> p dvd b"
  using prime_nat_coprime [of p a] coprime_dvd_mult_right_iff [of p a b] by blast

lemma prime_nat_not_dvd_fact: "prime_nat p \<Longrightarrow> k < p \<Longrightarrow> \<not> p dvd fact k"
proof (induction k)
  case 0
  then show ?case by (simp add: prime_nat_def)
next
  case (Suc k)
  have "\<not> p dvd Suc k" using Suc.prems(2) by (auto dest: dvd_imp_le)
  moreover have "\<not> p dvd fact k" using Suc by simp
  ultimately have "\<not> p dvd Suc k * fact k" using prime_nat_dvd_mult [OF Suc.prems(1)] by blast
  then show ?case by simp
qed

lemma prime_nat_dvd_choose:
  assumes p: "prime_nat p" and k: "0 < k" "k < p"
  shows "p dvd p choose k"
proof -
  have "fact k * fact (p - k) * (p choose k) = (fact p :: nat)"
    using k by (simp add: binomial_fact_lemma)
  moreover have "p dvd (fact p :: nat)" using k by (simp add: dvd_fact)
  ultimately have "p dvd fact k * fact (p - k) * (p choose k)" by simp
  then have "p dvd fact k * fact (p - k) \<or> p dvd p choose k"
    using p by (rule prime_nat_dvd_mult [rotated])
  moreover have "\<not> p dvd fact k * fact (p - k)"
    using prime_nat_dvd_mult [OF p, of "fact k" "fact (p - k)"]
      prime_nat_not_dvd_fact [OF p, of k] prime_nat_not_dvd_fact [OF p, of "p - k"] k
    by auto
  ultimately show ?thesis by blast
qed

lemma fermat_step:
  assumes p: "prime_nat p"
  shows "(a + 1) ^ p mod p = (a ^ p + 1) mod p"
proof -
  let ?f = "\<lambda>k. (p choose k) * a ^ k"
  have p2: "2 \<le> p" using p by (simp add: prime_nat_def)
  have split: "{..p} = insert 0 (insert p {1..<p})" using p2 by auto
  have "(a + 1) ^ p = (\<Sum>k\<le>p. ?f k)"
    using binomial [of a 1 p] by simp
  also have "\<dots> = ?f 0 + (?f p + (\<Sum>k\<in>{1..<p}. ?f k))"
    using p2 by (simp add: split)
  finally have eq: "(a + 1) ^ p = (a ^ p + 1) + (\<Sum>k\<in>{1..<p}. ?f k)" by simp
  have "p dvd (\<Sum>k\<in>{1..<p}. ?f k)"
  proof (rule dvd_sum)
    fix k assume "k \<in> {1..<p}"
    then have "p dvd p choose k" using p by (simp add: prime_nat_dvd_choose)
    then show "p dvd ?f k" by simp
  qed
  then have "((a ^ p + 1) + (\<Sum>k\<in>{1..<p}. ?f k)) mod p = (a ^ p + 1) mod p"
    by (metis mod_add_self2 dvd_eq_mod_eq_0 mod_add_right_eq add.right_neutral)
  then show ?thesis by (simp only: eq)
qed

lemma fermat_nat: "prime_nat p \<Longrightarrow> a ^ p mod p = a mod p"
proof (induction a)
  case 0
  then have "p \<noteq> 0" by (auto simp: prime_nat_def)
  then show ?case by (simp add: power_0_left)
next
  case (Suc a)
  have "(a + 1) ^ p mod p = (a ^ p + 1) mod p" using Suc.prems by (rule fermat_step)
  also have "\<dots> = (a ^ p mod p + 1) mod p" by (simp only: mod_add_left_eq)
  also have "\<dots> = (a mod p + 1) mod p" using Suc by simp
  also have "\<dots> = (a + 1) mod p" by (simp only: mod_add_left_eq)
  finally show ?case by simp
qed

lemma fermat_cycle_nat:
  assumes p: "prime_nat p"
  shows "a ^ (1 + j * (p - 1)) mod p = a mod p"
proof (induction j)
  case 0
  show ?case by simp
next
  case (Suc j)
  have p1: "Suc (p - 1) = p" using p by (simp add: prime_nat_def)
  have "1 + Suc j * (p - 1) = (1 + j * (p - 1)) + (p - 1)" by simp
  then have "a ^ (1 + Suc j * (p - 1)) = a ^ (1 + j * (p - 1)) * a ^ (p - 1)"
    by (simp only: power_add)
  then have "a ^ (1 + Suc j * (p - 1)) mod p = (a ^ (1 + j * (p - 1)) mod p) * a ^ (p - 1) mod p"
    by (simp only: mod_mult_left_eq)
  also have "\<dots> = (a mod p) * a ^ (p - 1) mod p" by (simp only: Suc.IH)
  also have "\<dots> = a * a ^ (p - 1) mod p" by (simp only: mod_mult_left_eq)
  also have "\<dots> = a ^ p mod p" using p1 by (metis power_Suc)
  also have "\<dots> = a mod p" using p by (rule fermat_nat)
  finally show ?case .
qed

subsection \<open>Powers modulo a product of distinct primes\<close>

lemma is_prime_prime_nat: "is_prime p \<Longrightarrow> prime_nat (nat p)"
proof -
  assume p: "is_prime p"
  then have p2: "2 \<le> p" and nodiv: "\<And>d. 2 \<le> d \<Longrightarrow> d < p \<Longrightarrow> \<not> d dvd p"
    by (simp_all add: is_prime_def)
  have "d = 1 \<or> d = nat p" if d: "d dvd nat p" for d
  proof (rule ccontr)
    assume no: "\<not> (d = 1 \<or> d = nat p)"
    have "nat p \<noteq> 0" using p2 by simp
    then have "d \<noteq> 0" using d by (metis dvd_0_left)
    moreover have "d \<le> nat p" using d p2 by (auto intro: dvd_imp_le)
    ultimately have "2 \<le> int d" "int d < p" using no by auto
    moreover have "int d dvd p" using d p2 by (metis int_dvd_int_iff int_nat_eq order_trans zero_le_numeral)
    ultimately show False using nodiv by blast
  qed
  then show ?thesis using p2 by (simp add: prime_nat_def)
qed

lemma fermat_cycle_int:
  assumes p: "is_prime p"
  shows "(m::int) ^ (1 + j * nat (p - 1)) mod p = m mod p"
proof -
  let ?k = "1 + j * (nat p - 1)"
  have p2: "2 \<le> p" using p by (simp add: is_prime_def)
  have pn: "prime_nat (nat p)" using p by (rule is_prime_prime_nat)
  have ip: "int (nat p) = p" using p2 by simp
  have "0 \<le> m mod p" using p2 by simp
  then have ia: "int (nat (m mod p)) = m mod p" by simp
  have "nat (m mod p) ^ ?k mod nat p = nat (m mod p) mod nat p"
    using pn by (rule fermat_cycle_nat)
  then have "int (nat (m mod p) ^ ?k mod nat p) = int (nat (m mod p) mod nat p)" by simp
  then have "(m mod p) ^ ?k mod p = (m mod p) mod p"
    by (simp only: zmod_int of_nat_power ia ip)
  then have "m ^ ?k mod p = m mod p" by (simp only: power_mod mod_mod_trivial)
  moreover have "nat (p - 1) = nat p - 1" by simp
  ultimately show ?thesis by simp
qed

lemma is_prime_coprime:
  assumes "is_prime p" "is_prime q" "p \<noteq> q"
  shows "coprime p q"
proof -
  have p2: "2 \<le> p" and q2: "2 \<le> q" using assms by (simp_all add: is_prime_def)
  have pn: "prime_nat (nat p)" and qn: "prime_nat (nat q)"
    using assms by (simp_all add: is_prime_prime_nat)
  have "\<not> nat p dvd nat q"
  proof
    assume "nat p dvd nat q"
    then have "nat p = 1 \<or> nat p = nat q" using qn by (simp add: prime_nat_def)
    then show False using p2 q2 assms(3) by auto
  qed
  then have "coprime (nat p) (nat q)" using pn by (simp add: prime_nat_coprime)
  then have "coprime (int (nat p)) (int (nat q))" by (simp only: coprime_int_iff)
  then show ?thesis using p2 q2 by simp
qed

lemma primes_prod_dvd:
  "\<forall>p \<in> set ps. is_prime p \<Longrightarrow> distinct ps \<Longrightarrow> \<forall>p \<in> set ps. p dvd x
     \<Longrightarrow> prod_list ps dvd x"
proof (induction ps)
  case Nil
  show ?case by simp
next
  case (Cons p ps)
  have "coprime p q" if "q \<in> set ps" for q
    using Cons.prems that by (intro is_prime_coprime) auto
  then have "coprime p (prod_list ps)" by (rule prod_list_coprime_right)
  moreover have "p dvd x" using Cons.prems by simp
  moreover have "prod_list ps dvd x" using Cons by simp
  ultimately have "p * prod_list ps dvd x" by (intro divides_mult)
  then show ?case by simp
qed

lemma lbda_pos: "\<forall>p \<in> set ps. is_prime p \<Longrightarrow> 0 < prod_list (map (\<lambda>p. p - 1) ps)"
  by (induction ps) (auto simp: is_prime_def)

lemma primes_prod_pos: "\<forall>p \<in> set ps. is_prime p \<Longrightarrow> 0 < prod_list ps"
  by (induction ps) (auto simp: is_prime_def)

lemma lbda_dvd: "(p::int) \<in> set ps \<Longrightarrow> (p - 1) dvd prod_list (map (\<lambda>p. p - 1) ps)"
proof -
  assume "p \<in> set ps"
  then have "p - 1 \<in> set (map (\<lambda>p. p - 1) ps)" by simp
  then show ?thesis by (rule prod_list_dvd)
qed

lemma rsa_cycle:
  assumes primes: "\<forall>p \<in> set ps. is_prime p" and dist: "distinct ps"
    and k0: "0 \<le> k" and k1: "k mod prod_list (map (\<lambda>p. p - 1) ps) = 1"
  shows "(m::int) ^ nat k mod prod_list ps = m mod prod_list ps"
proof -
  let ?l = "prod_list (map (\<lambda>p. p - 1) ps)"
  have lpos: "0 < ?l" using primes by (rule lbda_pos)
  define t where "t = k div ?l"
  have t0: "0 \<le> t" using k0 lpos by (simp add: t_def pos_imp_zdiv_nonneg_iff)
  have k: "k = 1 + t * ?l" using k1 div_mult_mod_eq [of k ?l] by (simp add: t_def)
  have "p dvd m ^ nat k - m" if pin: "p \<in> set ps" for p
  proof -
    have pp: "is_prime p" using primes pin by simp
    then have p2: "2 \<le> p" by (simp add: is_prime_def)
    obtain c where c: "?l = (p - 1) * c" using lbda_dvd [OF pin] by (auto simp: dvd_def)
    have c0: "0 \<le> c"
    proof (rule ccontr)
      assume "\<not> 0 \<le> c"
      then have "(p - 1) * c < 0" using p2 by (simp add: mult_less_0_iff)
      then show False using lpos c by simp
    qed
    have "k = 1 + (t * c) * (p - 1)" using k c by (simp add: mult.commute mult.left_commute)
    moreover have "0 \<le> t * c" using t0 c0 by simp
    ultimately have "nat k = 1 + nat (t * c) * nat (p - 1)"
      using p2 by (simp add: nat_add_distrib nat_mult_distrib)
    then have "m ^ nat k mod p = m mod p" using fermat_cycle_int [OF pp] by simp
    then show ?thesis by (simp add: mod_eq_dvd_iff)
  qed
  then have "prod_list ps dvd m ^ nat k - m"
    using primes dist by (intro primes_prod_dvd) simp_all
  then show ?thesis by (simp add: mod_eq_dvd_iff)
qed

subsection \<open>The private primitive\<close>

lemma mod_inverse_correct:
  assumes a: "0 \<le> a" and m: "2 \<le> m" and g: "gcd a m = 1"
  shows "\<exists>d. mod_inverse a m = Inr d \<and> 0 \<le> d \<and> d < m \<and> a * d mod m = 1"
proof -
  obtain u v g' where bz: "bezout a m = Inr (u, v, g')" and lin: "a * u + m * v = g'"
    and gg: "0 \<le> a \<longrightarrow> 0 \<le> m \<longrightarrow> g' = gcd a m"
    using bezout_correct [of a m] by blast
  have g1: "g' = 1" using gg a m g by simp
  have inv: "mod_inverse a m = Inr (u mod m)" using bz g1 by (simp add: mod_inverse_def)
  have "a * (u mod m) mod m = a * u mod m" by (simp only: mod_mult_right_eq)
  also have "a * u = 1 - m * v" using lin g1 by simp
  also have "(1 - m * v) mod m = 1 mod m" by (simp add: mod_diff_right_eq [symmetric])
  also have "\<dots> = 1" using m by simp
  finally have "a * (u mod m) mod m = 1" .
  moreover have "0 \<le> u mod m" "u mod m < m" using m by simp_all
  ultimately show ?thesis using inv by blast
qed

lemma all_two_prod_le:
  "\<forall>p \<in> set ps. p = (2::int) \<Longrightarrow> distinct ps \<Longrightarrow> prod_list ps \<le> 2"
proof (cases ps)
  case Nil
  then show ?thesis by simp
next
  case (Cons a as)
  assume all: "\<forall>p \<in> set ps. p = (2::int)" and dist: "distinct ps"
  show ?thesis
  proof (cases as)
    case Nil
    then show ?thesis using Cons all by simp
  next
    case (Cons b bs)
    then have "a = 2" "b = 2" "a \<noteq> b" using \<open>ps = a # as\<close> all dist by auto
    then show ?thesis by simp
  qed
qed

lemma lbda_ge_2:
  assumes primes: "\<forall>p \<in> set ps. is_prime p" and dist: "distinct ps"
    and n4: "4 \<le> prod_list ps"
  shows "2 \<le> prod_list (map (\<lambda>p. p - 1) ps)"
proof -
  have "\<exists>p \<in> set ps. 3 \<le> p"
  proof (rule ccontr)
    assume "\<not> (\<exists>p \<in> set ps. 3 \<le> p)"
    then have "\<forall>p \<in> set ps. p = 2" using primes by (fastforce simp: is_prime_def)
    then have "prod_list ps \<le> 2" using dist by (rule all_two_prod_le)
    then show False using n4 by simp
  qed
  then obtain p where pin: "p \<in> set ps" and p3: "3 \<le> p" by blast
  have "p - 1 dvd prod_list (map (\<lambda>p. p - 1) ps)" using pin by (rule lbda_dvd)
  moreover have "0 < prod_list (map (\<lambda>p. p - 1) ps)" using primes by (rule lbda_pos)
  ultimately have "p - 1 \<le> prod_list (map (\<lambda>p. p - 1) ps)" by (rule zdvd_imp_le)
  then show ?thesis using p3 by simp
qed

lemma rsasp1_power:
  assumes primes: "\<forall>p \<in> set ps. is_prime p" and dist: "distinct ps"
    and key: "key = \<lparr>priv_primes = ps, priv_e = e, priv_n = prod_list ps,
                     priv_lbda = prod_list (map (\<lambda>p. p - 1) ps), priv_k = k,
                     priv_blind = blind\<rparr>"
    and e: "0 \<le> e" and n4: "4 \<le> prod_list ps"
    and cop: "gcd e (prod_list (map (\<lambda>p. p - 1) ps)) = 1"
    and r: "0 \<le> r" "gcd r (prod_list ps) = 1"
  shows "\<exists>d. 0 \<le> d \<and> e * d mod prod_list (map (\<lambda>p. p - 1) ps) = 1
            \<and> rsasp1 key r m = Inr (m ^ nat d mod prod_list ps)"
proof -
  let ?n = "prod_list ps" and ?l = "prod_list (map (\<lambda>p. p - 1) ps)"
  have l2: "2 \<le> ?l" using primes dist n4 by (rule lbda_ge_2)
  obtain d where dinv: "mod_inverse e ?l = Inr d" and d0: "0 \<le> d" and ed: "e * d mod ?l = 1"
    using mod_inverse_correct [OF e l2 cop] by blast
  have n2: "2 \<le> ?n" using n4 by simp
  obtain ri where rinv: "mod_inverse r ?n = Inr ri" and rri: "r * ri mod ?n = 1"
    using mod_inverse_correct [OF r(1) n2 r(2)] by blast
  have ed0: "0 \<le> e * d" using e d0 by simp
  have cyc: "r ^ nat (e * d) mod ?n = r mod ?n"
    using primes dist ed0 ed by (rule rsa_cycle)
  have nat_ed: "nat (e * d) = nat e * nat d" using e d0 by (simp add: nat_mult_distrib)
  have pw_e: "mod_pow r e ?n = Inr (r ^ nat e mod ?n)" using e n4 by (simp add: mod_pow_def)
  have pw_d: "mod_pow x d ?n = Inr (x ^ nat d mod ?n)" for x
    using d0 n4 by (simp add: mod_pow_def)
  have "(m * (r ^ nat e mod ?n) mod ?n) ^ nat d mod ?n * ri mod ?n
          = (m * r ^ nat e) ^ nat d * ri mod ?n"
    by (simp add: mod_simps)
  also have "(m * r ^ nat e) ^ nat d = m ^ nat d * r ^ nat (e * d)"
    by (simp add: power_mult_distrib power_mult nat_ed)
  also have "m ^ nat d * r ^ nat (e * d) * ri mod ?n = (m ^ nat d * ri) * r ^ nat (e * d) mod ?n"
    by (simp add: ac_simps)
  also have "\<dots> = (m ^ nat d * ri) * (r ^ nat (e * d) mod ?n) mod ?n"
    by (simp only: mod_mult_right_eq)
  also have "\<dots> = (m ^ nat d * ri) * r mod ?n"
    by (simp only: cyc mod_mult_right_eq)
  also have "\<dots> = m ^ nat d * (r * ri) mod ?n"
    by (simp add: ac_simps)
  also have "\<dots> = m ^ nat d * (r * ri mod ?n) mod ?n"
    by (simp only: mod_mult_right_eq)
  also have "\<dots> = m ^ nat d mod ?n" by (simp only: rri mult_1_right)
  finally have blinded:
    "(m * (r ^ nat e mod ?n) mod ?n) ^ nat d mod ?n * ri mod ?n = m ^ nat d mod ?n" .
  have "rsasp1 key r m = Inr (m ^ nat d mod ?n)"
    by (cases blind) (simp_all add: rsasp1_def key dinv rinv pw_e pw_d blinded)
  with d0 ed show ?thesis by blast
qed

subsection \<open>What the generator returns\<close>

lemma key_loop_step:
  "key_loop size' number strict_size e (get_prime # rnd) st = Some st' \<Longrightarrow>
   int (length (gs_primes st)) < number \<Longrightarrow>
   \<exists>st1. key_loop size' number strict_size e rnd st1 = Some st' \<and> (gen_inv st \<longrightarrow> gen_inv st1)"
  by (auto simp: Let_def gen_inv_def split: if_splits option.splits bool.splits)

lemma key_loop_invariant:
  "key_loop size' number strict_size e rnd st = Some st' \<Longrightarrow> gen_inv st \<Longrightarrow> gen_inv st'"
proof (induction rnd arbitrary: st)
  case Nil
  then show ?case by (simp split: if_splits)
next
  case (Cons get_prime rnd)
  show ?case
  proof (cases "int (length (gs_primes st)) < number")
    case False
    then show ?thesis using Cons.prems by simp
  next
    case True
    obtain st1 where "key_loop size' number strict_size e rnd st1 = Some st'"
      and "gen_inv st \<longrightarrow> gen_inv st1"
      using key_loop_step [OF Cons.prems(1) True] by blast
    then show ?thesis using Cons.IH Cons.prems(2) by blast
  qed
qed

lemma generate_key_pair_shape:
  assumes "generate_key_pair size' number rnd strict_size e0 = Some (Inr (public_key, private_key))"
  shows "\<exists>ps e k. distinct ps \<and> 3 \<le> e \<and> e \<le> prod_list ps - 1
           \<and> integer_byte_size (prod_list ps) = Some k
           \<and> public_key = \<lparr>pub_n = prod_list ps, pub_e = e, pub_k = k\<rparr>
           \<and> private_key = \<lparr>priv_primes = ps, priv_e = e, priv_n = prod_list ps,
                 priv_lbda = prod_list (map (\<lambda>p. p - 1) ps), priv_k = k, priv_blind = True\<rparr>"
proof -
  from assms obtain q st where
    fd: "py_floordiv size' number = Inr q" and
    loop: "key_loop size' number strict_size e0 rnd
             \<lparr>gs_primes = [], gs_lbda = 1, gs_bits = q + 1, gs_n = 1\<rparr> = Some st"
    by (auto simp: generate_key_pair_def split: sum.splits option.splits)
  have "gen_inv \<lparr>gs_primes = [], gs_lbda = 1, gs_bits = q + 1, gs_n = 1\<rparr>"
    by (simp add: gen_inv_def)
  with loop have inv: "gen_inv st" by (rule key_loop_invariant)
  define e where "e = (case e0 of None \<Rightarrow> e_search 0x10001 (gs_lbda st) | Some ev \<Rightarrow> ev)"
  have tail: "(if 3 \<le> e \<and> e \<le> gs_n st - 1 then
                 (case (RsaPublicKey (gs_n st) e, MultiPrimeRsaPrivateKey (gs_primes st) e True) of
                    (Some public, Some private) \<Rightarrow> Some (Inr (public, private))
                  | _ \<Rightarrow> None)
               else Some (Inl AssertionError)) = Some (Inr (public_key, private_key))"
    using assms by (simp add: generate_key_pair_def fd loop Let_def e_def split: if_splits)
  then have e3: "3 \<le> e" "e \<le> gs_n st - 1" by (auto split: if_splits)
  have n: "gs_n st = prod_list (gs_primes st)"
    and l: "gs_lbda st = prod_list (map (\<lambda>p. p - 1) (gs_primes st))"
    and d: "distinct (gs_primes st)"
    using inv by (simp_all add: gen_inv_def)
  from tail e3 obtain k where k: "integer_byte_size (gs_n st) = Some k"
    and pub: "public_key = \<lparr>pub_n = gs_n st, pub_e = e, pub_k = k\<rparr>"
    by (auto simp: RsaPublicKey_def split: option.splits)
  from tail e3 k have priv: "private_key = \<lparr>priv_primes = gs_primes st, priv_e = e,
      priv_n = prod_list (gs_primes st),
      priv_lbda = prod_list (map (\<lambda>p. p - 1) (gs_primes st)), priv_k = k, priv_blind = True\<rparr>"
    by (auto simp: RsaPublicKey_def MultiPrimeRsaPrivateKey_def n split: option.splits)
  show ?thesis using d e3 k pub priv unfolding n by blast
qed

subsection \<open>The signature of a message verifies\<close>

lemma sign_verify_key:
  assumes primes: "\<forall>p \<in> set ps. is_prime p" and dist: "distinct ps"
    and e: "3 \<le> e" "e \<le> prod_list ps - 1"
    and k: "integer_byte_size (prod_list ps) = Some k"
    and pub: "public_key = \<lparr>pub_n = prod_list ps, pub_e = e, pub_k = k\<rparr>"
    and priv: "private_key = \<lparr>priv_primes = ps, priv_e = e, priv_n = prod_list ps,
                 priv_lbda = prod_list (map (\<lambda>p. p - 1) ps), priv_k = k, priv_blind = blind\<rparr>"
    and cop: "gcd e (prod_list (map (\<lambda>p. p - 1) ps)) = 1"
    and r: "0 \<le> r" "gcd r (prod_list ps) = 1"
    and enc: "encode message k = Inr em" "length em = k" "be_value em < prod_list ps"
  shows "\<exists>signature. sign l1 encode r private_key message = Inr signature
           \<and> length signature = k
           \<and> verify l2 encode public_key message signature
               = ([Call_rsavp1 (be_value signature), Call_encode message k], Inr True)"
proof -
  let ?n = "prod_list ps" and ?l = "prod_list (map (\<lambda>p. p - 1) ps)"
  let ?m = "be_value em"
  have n4: "4 \<le> ?n" using e by simp
  have e0: "0 \<le> e" using e by simp
  have kk: "k = length (min_bytes (nat ?n))"
    using k integer_byte_size_nonneg [of ?n] n4 by simp
  have "0 < k" unfolding kk by (rule length_min_bytes_pos)
  then have k1: "1 \<le> k" by simp
  have "nat ?n < 256 ^ k" unfolding kk by (rule min_bytes_upper)
  then have "int (nat ?n) < int (256 ^ k)" by (simp only: of_nat_less_iff)
  then have nk: "?n < 256 ^ k" using n4 by simp
  have em_ne: "em \<noteq> []" using enc(2) k1 by auto
  have m0: "0 \<le> ?m" using be_value_bounds [of em] by simp
  obtain d where d0: "0 \<le> d" and ed: "e * d mod ?l = 1"
    and sp: "rsasp1 private_key r ?m = Inr (?m ^ nat d mod ?n)"
    using rsasp1_power [OF primes dist priv e0 n4 cop r, of ?m] by blast
  let ?s = "?m ^ nat d mod ?n"
  have s0: "0 \<le> ?s" and sn: "?s < ?n" using n4 by simp_all
  have sk: "?s < 256 ^ k" using sn nk by simp
  obtain sg where sg: "i2osp l1 ?s k = Inr sg" and sg_len: "length sg = k"
    and sg_val: "be_value sg = ?s"
    using i2osp_below [OF s0 sk k1, of l1] by blast
  have signed: "sign l1 encode r private_key message = Inr sg"
    by (simp add: sign_def priv enc(1) os2ip_value [OF em_ne] sp [unfolded priv] sg)
  have sg_ne: "sg \<noteq> []" using sg_len k1 by auto
  have dec: "os2ip sg = Inr ?s" using os2ip_value [OF sg_ne] sg_val by simp
  have ed0: "0 \<le> e * d" using e0 d0 by simp
  have "?s ^ nat e mod ?n = ?m ^ (nat d * nat e) mod ?n"
    by (simp add: power_mod power_mult)
  also have "nat d * nat e = nat (e * d)" using e0 d0 by (simp add: nat_mult_distrib mult.commute)
  also have "?m ^ nat (e * d) mod ?n = ?m mod ?n"
    using primes dist ed0 ed by (rule rsa_cycle)
  also have "\<dots> = ?m" using m0 enc(3) by simp
  finally have cycle: "?s ^ nat e mod ?n = ?m" .
  have vp: "rsavp1 public_key ?s = Inr ?m"
    using s0 sn e0 n4 cycle by (simp add: rsavp1_def pub mod_pow_def)
  have conv: "i2osp l2 ?m k = Inr em" using i2osp_be_value [OF em_ne, of l2] enc(2) by simp
  have cmp: "constant_time_cmp em em"
    by (simp add: constant_time_cmp_eq)
  have "verify l2 encode public_key message sg
          = ([Call_rsavp1 ?s, Call_encode message k], Inr True)"
    by (simp add: verify_def pub sg_len dec vp [unfolded pub] conv enc(1) cmp)
  with signed sg_len sg_val show ?thesis by auto
qed

text \<open>
  C1. Take a key pair returned by \<open>generate_key_pair\<close> that is valid: its primes are
  prime and \<open>e\<close> is coprime to \<open>\<lambda>\<close>.  Take a blinding factor \<open>r \<ge> 0\<close> coprime to \<open>n\<close>, and
  a message that the encoder encodes into \<open>k\<close> bytes denoting an integer below \<open>n\<close>.
  Then \<open>sign\<close> returns a signature and \<open>verify\<close> returns true on it.
\<close>

theorem sign_then_verify:
  assumes gen: "generate_key_pair size' number rnd strict_size e0
                  = Some (Inr (public_key, private_key))"
    and primes: "\<forall>p \<in> set (priv_primes private_key). is_prime p"
    and cop: "gcd (priv_e private_key) (priv_lbda private_key) = 1"
    and r: "0 \<le> r" "gcd r (priv_n private_key) = 1"
    and enc: "encode message (pub_k public_key) = Inr em" "length em = pub_k public_key"
      "be_value em < pub_n public_key"
  shows "\<exists>signature. sign l1 encode r private_key message = Inr signature
           \<and> snd (verify l2 encode public_key message signature) = Inr True"
proof -
  obtain ps e k where dist: "distinct ps" and e: "3 \<le> e" "e \<le> prod_list ps - 1"
    and k: "integer_byte_size (prod_list ps) = Some k"
    and pub: "public_key = \<lparr>pub_n = prod_list ps, pub_e = e, pub_k = k\<rparr>"
    and priv: "private_key = \<lparr>priv_primes = ps, priv_e = e, priv_n = prod_list ps,
                 priv_lbda = prod_list (map (\<lambda>p. p - 1) ps), priv_k = k, priv_blind = True\<rparr>"
    using generate_key_pair_shape [OF gen] by blast
  have primes': "\<forall>p \<in> set ps. is_prime p" using primes priv by simp
  have cop': "gcd e (prod_list (map (\<lambda>p. p - 1) ps)) = 1" using cop priv by simp
  have r': "gcd r (prod_list ps) = 1" using r(2) priv by simp
  have enc': "encode message k = Inr em" "length em = k" "be_value em < prod_list ps"
    using enc pub by simp_all
  obtain signature where "sign l1 encode r private_key message = Inr signature"
    and "verify l2 encode public_key message signature
               = ([Call_rsavp1 (be_value signature), Call_encode message k], Inr True)"
    using sign_verify_key [where encode = encode and message = message and ?l1.0 = l1
        and ?l2.0 = l2, OF primes' dist e k pub priv cop' r(1) r' enc']
    by blast
  then show ?thesis by auto
qed

theorem sign_then_verify_witness:
  "\<exists>signature.
     sign False (\<lambda>m k. Inr [7, 42]) 5
       \<lparr>priv_primes = [67, 61], priv_e = 17, priv_n = 4087, priv_lbda = 3960, priv_k = 2,
        priv_blind = True\<rparr> [104, 105] = Inr signature
     \<and> snd (verify False (\<lambda>m k. Inr [7, 42]) \<lparr>pub_n = 4087, pub_e = 17, pub_k = 2\<rparr>
              [104, 105] signature) = Inr True"
proof -
  let ?pub = "\<lparr>pub_n = 4087, pub_e = 17, pub_k = 2\<rparr>"
  let ?priv = "\<lparr>priv_primes = [67, 61], priv_e = 17, priv_n = 4087, priv_lbda = 3960,
                priv_k = 2, priv_blind = True\<rparr>"
  have gen: "generate_key_pair 12 2
      [\<lambda>bits. if bits = 7 then 67 else 0, \<lambda>bits. if bits = 6 then 61 else 0] True (Some 17)
      = Some (Inr (?pub, ?priv))"
    by code_simp
  have primes: "\<forall>p \<in> set (priv_primes ?priv). is_prime p" by code_simp
  have cop: "gcd (priv_e ?priv) (priv_lbda ?priv) = 1" by code_simp
  have r: "(0::int) \<le> 5" "gcd 5 (priv_n ?priv) = 1" by code_simp+
  have enc: "(\<lambda>m k. Inr [7, 42] :: error + byte list) [104, 105] (pub_k ?pub) = Inr [7, 42]"
    "length [7, 42 :: byte] = pub_k ?pub" "be_value [7, 42] < pub_n ?pub"
    by simp_all
  show ?thesis
    using sign_then_verify [where encode = "\<lambda>m k. Inr [7, 42]" and message = "[104, 105]"
        and ?l1.0 = False and ?l2.0 = False, OF gen primes cop r enc]
    by simp
qed

end
